theory Spec2Isabelle
  imports Main "HOL-Library.Word"
begin

unbundle bit_operations_syntax

section \<open>The record scanner of hexcrc.c\<close>

text \<open>
  The program reads a stream one byte at a time with \<^verbatim>\<open>fgetc\<close>, which yields each byte
  as an \<^verbatim>\<open>int\<close> between 0 and 255. The stream is a \<open>char list\<close> (a HOL \<open>char\<close> is one
  byte), and the value of \<^verbatim>\<open>input\<close> is \<open>of_char c\<close>. These values, and the results of
  \<^verbatim>\<open>hex_to_dec\<close>, never leave the range 0 to 255, so they are HOL integers.

  The counters are machine integers and are incremented once per byte or per record:
  \<^verbatim>\<open>line\<close> and \<^verbatim>\<open>col\<close> are \<^verbatim>\<open>int\<close> (32 bits, read through \<open>sint\<close>), \<^verbatim>\<open>byte\<close> is
  \<^verbatim>\<open>uint8_t\<close>, \<^verbatim>\<open>recordSum\<close> is \<^verbatim>\<open>uint64_t\<close> and \<^verbatim>\<open>cnt\<close> is \<^verbatim>\<open>size_t\<close> (64 bits on the
  LP64 targets). An increment of \<^verbatim>\<open>line\<close> or \<^verbatim>\<open>col\<close> beyond \<^verbatim>\<open>INT_MAX\<close> is a signed overflow,
  which ISO C leaves undefined; the model takes the two's complement result, which is what
  the common compilers produce. Every theorem below that bounds the length of the stream
  by \<open>INT_MAX\<close> speaks of runs without any overflow.
\<close>

type_synonym c_int = "32 word"
type_synonym uint8_t = "8 word"
type_synonym uint64_t = "64 word"
type_synonym size_t = "64 word"

definition INT_MAX :: nat where
  "INT_MAX = 2147483647"

subsection \<open>The classification functions of ctype.h\<close>

text \<open>
  The program never calls \<^verbatim>\<open>setlocale\<close>, so the "C" locale is in force, where the
  classes are the ASCII ranges below.
\<close>

definition isdigit :: "int \<Rightarrow> bool" where
  "isdigit c = (48 \<le> c \<and> c \<le> 57)"

definition isupper :: "int \<Rightarrow> bool" where
  "isupper c = (65 \<le> c \<and> c \<le> 90)"

definition islower :: "int \<Rightarrow> bool" where
  "islower c = (97 \<le> c \<and> c \<le> 122)"

definition isalpha :: "int \<Rightarrow> bool" where
  "isalpha c = (isupper c \<or> islower c)"

definition isalnum :: "int \<Rightarrow> bool" where
  "isalnum c = (isalpha c \<or> isdigit c)"

definition isxdigit :: "int \<Rightarrow> bool" where
  "isxdigit c = (isdigit c \<or> (65 \<le> c \<and> c \<le> 70) \<or> (97 \<le> c \<and> c \<le> 102))"

subsection \<open>Digits\<close>

text \<open>\<^verbatim>\<open>is_hex_char\<close>, with its two early returns in the order of the source.\<close>

definition is_hex_char :: "int \<Rightarrow> bool" where
  "is_hex_char c =
     (if \<not> isxdigit c then False
      else if isalpha c \<and> islower c then False
      else True)"

text \<open>\<^verbatim>\<open>hex_to_dec\<close>: \<open>None\<close> is the call of \<^verbatim>\<open>abort\<close>.\<close>

definition hex_to_dec :: "int \<Rightarrow> int option" where
  "hex_to_dec c =
     (if c \<ge> 48 \<and> c \<le> 57 then Some (c - 48)
      else if c \<ge> 65 \<and> c \<le> 70 then Some (c - 65 + 10)
      else None)"

subsection \<open>Diagnostics\<close>

text \<open>
  \<^verbatim>\<open>log_error\<close> prints the message, the line and the column with \<^verbatim>\<open>%i\<close>, and its last
  argument with \<^verbatim>\<open>%c\<close>, which converts the \<^verbatim>\<open>int\<close> to \<^verbatim>\<open>unsigned char\<close>: the character
  shown is the argument modulo 256.
\<close>

record diagnostic =
  msg :: string
  at_line :: c_int
  at_col :: c_int
  shown :: char

definition log_error :: "string \<Rightarrow> c_int \<Rightarrow> c_int \<Rightarrow> int \<Rightarrow> diagnostic" where
  "log_error m l c input = \<lparr>msg = m, at_line = l, at_col = c, shown = char_of input\<rparr>"

text \<open>
  The ways \<^verbatim>\<open>check_file\<close> ends: \<open>Ok\<close> is \<^verbatim>\<open>return true\<close>; \<open>LogError\<close> is a call of
  \<^verbatim>\<open>log_error\<close> followed by \<^verbatim>\<open>return false\<close>; \<open>EmptyFile\<close> and \<open>NoRecord\<close> are the two
  messages after the loop; \<open>Aborted\<close> is \<^verbatim>\<open>abort\<close> inside \<^verbatim>\<open>hex_to_dec\<close>.
\<close>

datatype verdict = Ok | LogError diagnostic | EmptyFile | NoRecord | Aborted

subsection \<open>The automaton\<close>

datatype State = COMMENT | NEW_RECORD | BYTE_START | BYTE_END

record scanner =
  line :: c_int
  col :: c_int
  byte :: uint8_t
  recordSum :: uint64_t
  cnt :: size_t
  state :: State

definition init :: scanner where
  "init = \<lparr>line = 1, col = 1, byte = 0, recordSum = 0, cnt = 0, state = COMMENT\<rparr>"

definition check_crc :: "uint64_t \<Rightarrow> bool" where
  "check_crc recsum = (let lsb = (ucast (recsum AND 0xFF) :: uint8_t) in lsb = 0)"

text \<open>The assignment after the \<^verbatim>\<open>if\<close> chain of the case \<^verbatim>\<open>BYTE_END\<close>.\<close>

definition colon_override :: "scanner \<Rightarrow> int \<Rightarrow> scanner" where
  "colon_override s input = (if input = 58 then s\<lparr>state := NEW_RECORD\<rparr> else s)"

text \<open>
  One execution of the \<^verbatim>\<open>switch\<close>. The result is the variables as the \<^verbatim>\<open>switch\<close> leaves
  them, together with \<open>Some v\<close> when the function returns (or aborts) inside it. The
  \<^verbatim>\<open>default\<close> case has no counterpart: \<open>State\<close> has the four values of the enumeration
  only. The cast \<^verbatim>\<open>(int)recordSum\<close> keeps the low 32 bits, read as two's complement (the
  result that gcc and clang define for a value above \<^verbatim>\<open>INT_MAX\<close>).
\<close>

definition fsa :: "scanner \<Rightarrow> int \<Rightarrow> verdict option \<times> scanner" where
  "fsa s input =
     (case state s of
        COMMENT \<Rightarrow>
          if input = 58 then (None, s\<lparr>cnt := cnt s + 1, state := NEW_RECORD\<rparr>)
          else (None, s)
      | NEW_RECORD \<Rightarrow>
          if is_hex_char input then
            (let s1 = s\<lparr>recordSum := 0, byte := 0\<rparr> in
             case hex_to_dec input of
               None \<Rightarrow> (Some Aborted, s1)
             | Some v \<Rightarrow> (None, s1\<lparr>byte := word_of_int (push_bit 4 v), state := BYTE_START\<rparr>))
          else
            (Some (LogError (log_error ''Expected uppercase hex digit.'' (line s) (col s) input)), s)
      | BYTE_START \<Rightarrow>
          if is_hex_char input then
            (case hex_to_dec input of
               None \<Rightarrow> (Some Aborted, s)
             | Some v \<Rightarrow> (None, s\<lparr>byte := word_of_int (uint (byte s) OR v), state := BYTE_END\<rparr>))
          else
            (Some (LogError (log_error ''Expected uppercase hex digit.'' (line s) (col s) input)), s)
      | BYTE_END \<Rightarrow>
          (let s1 = s\<lparr>recordSum := recordSum s + ucast (byte s)\<rparr> in
           if is_hex_char input then
             (let s2 = s1\<lparr>byte := 0\<rparr> in
              case hex_to_dec input of
                None \<Rightarrow> (Some Aborted, s2)
              | Some v \<Rightarrow>
                  (None, colon_override
                     (s2\<lparr>byte := word_of_int (push_bit 4 v), state := BYTE_START\<rparr>) input))
           else if isalnum input then
             (Some (LogError
                (log_error ''Expected uppercase hex digit.'' (line s1) (col s1) input)), s1)
           else if \<not> check_crc (recordSum s1) then
             (Some (LogError
                (log_error ''Wrong CRC.'' (line s1) (col s1)
                   (sint (ucast (recordSum s1) :: c_int)))), s1)
           else (None, colon_override (s1\<lparr>state := COMMENT\<rparr>) input)))"

text \<open>The update of the position at the end of the loop body.\<close>

definition update_context :: "scanner \<Rightarrow> int \<Rightarrow> scanner" where
  "update_context s input =
     (let s1 = s\<lparr>col := col s + 1\<rparr> in
      if input = 10 then s1\<lparr>line := line s1 + 1, col := 1\<rparr> else s1)"

text \<open>The \<^verbatim>\<open>while\<close> loop: it ends at the end of the stream or at the first return.\<close>

fun loop :: "scanner \<Rightarrow> char list \<Rightarrow> verdict option \<times> scanner" where
  "loop s [] = (None, s)"
| "loop s (c # cs) =
     (let input = (of_char c :: int) in
      case fsa s input of
        (Some v, s') \<Rightarrow> (Some v, s')
      | (None, s') \<Rightarrow> loop (update_context s' input) cs)"

definition check_file :: "char list \<Rightarrow> verdict" where
  "check_file bs =
     (case loop init bs of
        (Some v, s) \<Rightarrow> v
      | (None, s) \<Rightarrow>
          if line s = 1 \<and> col s = 1 then EmptyFile
          else if cnt s = 0 then NoRecord
          else Ok)"

subsection \<open>Notions used to state the properties\<close>

text \<open>
  The 1-based line and column of the byte that follows the prefix \<open>pre\<close> of a stream:
  one more than the number of newlines in \<open>pre\<close>, and one more than the number of bytes
  after the last newline of \<open>pre\<close>.
\<close>

definition line_no :: "char list \<Rightarrow> nat" where
  "line_no pre = 1 + count_list pre (CHR 0x0A)"

definition col_no :: "char list \<Rightarrow> nat" where
  "col_no pre = 1 + length (takeWhile (\<lambda>c. c \<noteq> CHR 0x0A) (rev pre))"

text \<open>
  The body of a record is a list of digit pairs. A pair is well formed when both bytes
  pass \<open>is_hex_char\<close>; its value is the byte that the two digits denote, decoded by
  \<open>hex_to_dec\<close>.
\<close>

definition digit_value :: "int \<Rightarrow> int" where
  "digit_value c = (case hex_to_dec c of Some v \<Rightarrow> v | None \<Rightarrow> 0)"

definition pair_value :: "char \<times> char \<Rightarrow> int" where
  "pair_value p = 16 * digit_value (of_char (fst p)) + digit_value (of_char (snd p))"

definition hex_pair :: "char \<times> char \<Rightarrow> bool" where
  "hex_pair p = (is_hex_char (of_char (fst p)) \<and> is_hex_char (of_char (snd p)))"

fun record_body :: "(char \<times> char) list \<Rightarrow> char list" where
  "record_body [] = []"
| "record_body (p # ps) = fst p # snd p # record_body ps"

definition record_sum :: "(char \<times> char) list \<Rightarrow> int" where
  "record_sum ps = sum_list (map pair_value ps)"

text \<open>The sixteen digits in the order of their values.\<close>

definition hex_digits :: string where
  "hex_digits = ''0123456789ABCDEF''"

definition non_alnum :: "char \<Rightarrow> bool" where
  "non_alnum t = (\<not> isalnum (of_char t))"

section \<open>Basic facts\<close>

subsection \<open>Bytes and digits\<close>

lemma of_char_newline: "((of_char c :: int) = 10) = (c = CHR 0x0A)"
proof -
  have "(of_char (CHR 0x0A) :: int) = 10" by simp
  then show ?thesis by (metis of_char_eq_iff)
qed

lemma of_char_colon: "((of_char c :: int) = 58) = (c = CHR '':'')"
proof -
  have "(of_char (CHR '':'') :: int) = 58" by simp
  then show ?thesis by (metis of_char_eq_iff)
qed

lemma is_hex_char_iff: "is_hex_char c = ((48 \<le> c \<and> c \<le> 57) \<or> (65 \<le> c \<and> c \<le> 70))"
  by (auto simp: is_hex_char_def isxdigit_def isalpha_def islower_def isupper_def isdigit_def)

lemma hex_to_dec_Some:
  "is_hex_char c \<Longrightarrow> \<exists>v. hex_to_dec c = Some v \<and> 0 \<le> v \<and> v \<le> 15"
  by (auto simp: is_hex_char_iff hex_to_dec_def)

lemma digit_value_range:
  "is_hex_char c \<Longrightarrow>
     hex_to_dec c = Some (digit_value c) \<and> 0 \<le> digit_value c \<and> digit_value c \<le> 15"
  using hex_to_dec_Some [of c] by (auto simp: digit_value_def)

lemma hex_digit_index:
  assumes "c = of_char (hex_digits ! i)" and "i < 16" and "hex_to_dec c = Some (int i)"
  shows "\<exists>i<16. c = of_char (hex_digits ! i) \<and> hex_to_dec c = Some (int i)"
  using assms by blast

lemma hex_to_dec_value:
  assumes "is_hex_char c"
  shows "\<exists>i<16. c = of_char (hex_digits ! i) \<and> hex_to_dec c = Some (int i)"
proof -
  from assms have "c = 48 \<or> c = 49 \<or> c = 50 \<or> c = 51 \<or> c = 52 \<or> c = 53 \<or> c = 54 \<or>
      c = 55 \<or> c = 56 \<or> c = 57 \<or> c = 65 \<or> c = 66 \<or> c = 67 \<or> c = 68 \<or> c = 69 \<or> c = 70"
    unfolding is_hex_char_iff by arith
  then show ?thesis
  proof (elim disjE)
    assume "c = 48" then show ?thesis
      by (intro hex_digit_index [of c 0]) (simp_all add: hex_digits_def hex_to_dec_def)
  next
    assume "c = 49" then show ?thesis
      by (intro hex_digit_index [of c 1]) (simp_all add: hex_digits_def hex_to_dec_def)
  next
    assume "c = 50" then show ?thesis
      by (intro hex_digit_index [of c 2]) (simp_all add: hex_digits_def hex_to_dec_def)
  next
    assume "c = 51" then show ?thesis
      by (intro hex_digit_index [of c 3]) (simp_all add: hex_digits_def hex_to_dec_def)
  next
    assume "c = 52" then show ?thesis
      by (intro hex_digit_index [of c 4]) (simp_all add: hex_digits_def hex_to_dec_def)
  next
    assume "c = 53" then show ?thesis
      by (intro hex_digit_index [of c 5]) (simp_all add: hex_digits_def hex_to_dec_def)
  next
    assume "c = 54" then show ?thesis
      by (intro hex_digit_index [of c 6]) (simp_all add: hex_digits_def hex_to_dec_def)
  next
    assume "c = 55" then show ?thesis
      by (intro hex_digit_index [of c 7]) (simp_all add: hex_digits_def hex_to_dec_def)
  next
    assume "c = 56" then show ?thesis
      by (intro hex_digit_index [of c 8]) (simp_all add: hex_digits_def hex_to_dec_def)
  next
    assume "c = 57" then show ?thesis
      by (intro hex_digit_index [of c 9]) (simp_all add: hex_digits_def hex_to_dec_def)
  next
    assume "c = 65" then show ?thesis
      by (intro hex_digit_index [of c 10]) (simp_all add: hex_digits_def hex_to_dec_def)
  next
    assume "c = 66" then show ?thesis
      by (intro hex_digit_index [of c 11]) (simp_all add: hex_digits_def hex_to_dec_def)
  next
    assume "c = 67" then show ?thesis
      by (intro hex_digit_index [of c 12]) (simp_all add: hex_digits_def hex_to_dec_def)
  next
    assume "c = 68" then show ?thesis
      by (intro hex_digit_index [of c 13]) (simp_all add: hex_digits_def hex_to_dec_def)
  next
    assume "c = 69" then show ?thesis
      by (intro hex_digit_index [of c 14]) (simp_all add: hex_digits_def hex_to_dec_def)
  next
    assume "c = 70" then show ?thesis
      by (intro hex_digit_index [of c 15]) (simp_all add: hex_digits_def hex_to_dec_def)
  qed
qed

lemma hex_not_special: "is_hex_char c \<Longrightarrow> c \<noteq> 10 \<and> c \<noteq> 58 \<and> isalnum c"
  by (auto simp: is_hex_char_iff isalnum_def isalpha_def isupper_def isdigit_def)

lemma pair_value_range: "hex_pair p \<Longrightarrow> 0 \<le> pair_value p \<and> pair_value p < 256"
  using digit_value_range [of "of_char (fst p)"] digit_value_range [of "of_char (snd p)"]
  by (simp add: hex_pair_def pair_value_def)

subsection \<open>Machine arithmetic\<close>

lemma byte_of_nibbles:
  assumes "0 \<le> a" "a \<le> 15" "0 \<le> b" "b \<le> 15"
  shows "(word_of_int (uint (word_of_int (push_bit 4 a) :: uint8_t) OR b) :: uint8_t) =
    word_of_int (16 * a + b)"
proof -
  have b4: "take_bit 4 b = b"
    using assms by (simp add: take_bit_int_eq_self)
  have "push_bit 4 a AND take_bit 4 b = 0"
    by (auto simp: bit_eq_iff bit_simps)
  then have A: "push_bit 4 a OR b = push_bit 4 a + b"
    using disjunctive_add_eq_or [of "push_bit 4 a" b] b4 by simp
  have B: "uint (word_of_int (push_bit 4 a) :: uint8_t) = push_bit 4 a"
    unfolding uint_word_of_int_eq using assms
    by (intro take_bit_int_eq_self) (simp_all add: push_bit_eq_mult)
  have C: "push_bit 4 a = 16 * a"
    by (simp add: push_bit_eq_mult)
  have "uint (word_of_int (push_bit 4 a) :: uint8_t) OR b = push_bit 4 a + b"
    by (simp only: B A)
  then show ?thesis
    by (simp only: C)
qed

lemma ucast_byte_value:
  "0 \<le> v \<Longrightarrow> v < 256 \<Longrightarrow> (ucast (word_of_int v :: uint8_t) :: uint64_t) = word_of_int v"
  by (simp add: unsigned_of_int take_bit_int_eq_self)

lemma ucast_low_byte: "(ucast ((w :: uint64_t) AND 0xFF) :: uint8_t) = ucast w"
proof -
  have m: "(0xFF :: uint64_t) = mask 8"
    by (simp add: mask_eq_exp_minus_1)
  have h: "w AND 0xFF = take_bit 8 w"
    by (simp only: m take_bit_eq_mask)
  show ?thesis
    unfolding h by (rule bit_word_eqI) (auto simp: bit_simps)
qed

lemma ucast_of_int_byte: "(ucast (word_of_int n :: uint64_t) :: uint8_t) = word_of_int n"
  by (rule bit_word_eqI) (auto simp: bit_simps)

lemma check_crc_of_int: "check_crc (word_of_int n) = (n mod 256 = 0)"
  by (simp add: check_crc_def ucast_low_byte ucast_of_int_byte word_of_int_eq_0_iff
      mod_eq_0_iff_dvd)

lemma shown_of_sum:
  "(of_char (char_of (sint (ucast (word_of_int n :: uint64_t) :: c_int))) :: int) = n mod 256"
proof -
  let ?w = "ucast (word_of_int n :: uint64_t) :: c_int"
  have "sint ?w mod 256 = take_bit 8 (sint ?w)"
    by (simp add: take_bit_eq_mod)
  also have "\<dots> = take_bit 8 (uint ?w)"
    by (simp add: uint_sint)
  also have "\<dots> = take_bit 8 (take_bit 32 n)"
    by (simp add: unsigned_ucast_eq uint_word_of_int_eq)
  also have "\<dots> = n mod 256"
    by (simp add: take_bit_eq_mod mod_mod_cancel)
  finally show ?thesis by simp
qed

subsection \<open>The loop\<close>

lemma loop_append:
  "loop s (xs @ ys) =
     (case loop s xs of (Some v, s') \<Rightarrow> (Some v, s') | (None, s') \<Rightarrow> loop s' ys)"
  by (induction xs arbitrary: s) (auto simp: Let_def split: prod.splits option.splits)

lemma fsa_position: "fsa s input = (r, s') \<Longrightarrow> line s' = line s \<and> col s' = col s"
  by (auto simp: fsa_def colon_override_def Let_def
      split: State.splits if_splits option.splits)

lemma fsa_not_Aborted: "fst (fsa s input) \<noteq> Some Aborted"
  using hex_to_dec_Some [of input]
  by (auto simp: fsa_def Let_def split: State.splits)

lemma loop_not_Aborted: "fst (loop s bs) \<noteq> Some Aborted"
proof (induction bs arbitrary: s)
  case Nil
  then show ?case by simp
next
  case (Cons c cs)
  show ?case
    using fsa_not_Aborted [of s "of_char c"] Cons.IH
    by (auto simp: Let_def split: prod.splits option.splits)
qed

subsection \<open>Positions\<close>

lemma col_no_Cons_newline:
  "col_no (CHR 0x0A # cs) = (if CHR 0x0A \<in> set cs then col_no cs else 1 + length cs)"
  by (auto simp: col_no_def takeWhile_append)

lemma col_no_Cons_other:
  "c \<noteq> CHR 0x0A \<Longrightarrow>
     col_no (c # cs) = (if CHR 0x0A \<in> set cs then col_no cs else 2 + length cs)"
  by (auto simp: col_no_def takeWhile_append)

lemma col_no_no_newline:
  assumes "CHR 0x0A \<notin> set bs"
  shows "col_no bs = 1 + length bs"
proof -
  have "takeWhile (\<lambda>c. c \<noteq> CHR 0x0A) (rev bs) = rev bs"
    using assms by (auto simp: takeWhile_eq_all_conv)
  then have "length (takeWhile (\<lambda>c. c \<noteq> CHR 0x0A) (rev bs)) = length bs"
    by (simp only: length_rev)
  then show ?thesis
    by (simp only: col_no_def)
qed

lemma loop_position:
  "loop s bs = (None, s') \<Longrightarrow>
     line s' = line s + of_nat (count_list bs (CHR 0x0A)) \<and>
     col s' = (if CHR 0x0A \<in> set bs then of_nat (col_no bs) else col s + of_nat (length bs))"
proof (induction bs arbitrary: s)
  case Nil
  then show ?case by simp
next
  case (Cons c cs)
  from Cons.prems obtain s1 where
    f: "fsa s (of_char c) = (None, s1)" and
    l: "loop (update_context s1 (of_char c)) cs = (None, s')"
    by (auto simp: Let_def split: prod.splits option.splits)
  from fsa_position [OF f] have p: "line s1 = line s" "col s1 = col s"
    by simp_all
  note ih = Cons.IH [OF l]
  show ?case
  proof (cases "c = CHR 0x0A")
    case True
    then show ?thesis using ih p
      by (simp add: update_context_def of_char_newline col_no_Cons_newline del: of_char_Char)
  next
    case False
    then show ?thesis using ih p
      by (simp add: update_context_def of_char_newline col_no_Cons_other)
  qed
qed

lemma loop_init_position:
  assumes "loop init pre = (None, s)"
  shows "line s = of_nat (line_no pre) \<and> col s = of_nat (col_no pre)"
  using loop_position [OF assms]
  by (simp add: init_def line_no_def col_no_no_newline)

text \<open>
  The counters hold these numbers as C \<^verbatim>\<open>int\<close>s. Up to \<open>INT_MAX\<close> the value printed with
  \<^verbatim>\<open>%i\<close> is the number itself.
\<close>

lemma sint_of_nat_small:
  assumes "n \<le> INT_MAX"
  shows "sint (of_nat n :: c_int) = int n"
proof -
  have "signed_take_bit 31 (int n) = int n"
    using assms by (intro signed_take_bit_int_eq_self) (simp_all add: INT_MAX_def)
  then show ?thesis
    by (simp add: signed_of_nat)
qed

lemma line_col_bounds: "line_no pre \<le> 1 + length pre \<and> col_no pre \<le> 1 + length pre"
proof -
  have "length (takeWhile (\<lambda>c. c \<noteq> CHR 0x0A) (rev pre)) \<le> length (rev pre)"
    by (rule length_takeWhile_le)
  then show ?thesis
    using count_le_length [of pre "CHR 0x0A"] by (simp add: line_no_def col_no_def)
qed

lemma position_exact:
  assumes "length pre < INT_MAX"
  shows "sint (of_nat (line_no pre) :: c_int) = int (line_no pre) \<and>
    sint (of_nat (col_no pre) :: c_int) = int (col_no pre)"
  using line_col_bounds [of pre] assms
  by (simp add: sint_of_nat_small)

subsection \<open>Single steps\<close>

lemma fsa_lexical:
  assumes "state s \<noteq> COMMENT" "\<not> is_hex_char i" "isalnum i"
  shows "fst (fsa s i) =
    Some (LogError (log_error ''Expected uppercase hex digit.'' (line s) (col s) i))"
  using assms by (cases "state s") (simp_all add: fsa_def Let_def)

lemma lowercase_hex:
  assumes "c \<in> set ''abcdef''"
  shows "\<not> is_hex_char (of_char c) \<and> isalnum (of_char c)"
  using assms by (auto simp: is_hex_char_iff isalnum_def isalpha_def islower_def)

lemma fsa_NEW_RECORD_hex:
  "state s = NEW_RECORD \<Longrightarrow> is_hex_char i \<Longrightarrow>
   fsa s i =
     (None, s\<lparr>recordSum := 0, byte := word_of_int (push_bit 4 (digit_value i)),
               state := BYTE_START\<rparr>)"
  using digit_value_range [of i] by (simp add: fsa_def)

lemma fsa_BYTE_START_hex:
  "state s = BYTE_START \<Longrightarrow> is_hex_char i \<Longrightarrow>
   fsa s i =
     (None, s\<lparr>byte := word_of_int (uint (byte s) OR digit_value i), state := BYTE_END\<rparr>)"
  using digit_value_range [of i] by (simp add: fsa_def)

lemma fsa_BYTE_END_hex:
  "state s = BYTE_END \<Longrightarrow> is_hex_char i \<Longrightarrow>
   fsa s i =
     (None, s\<lparr>recordSum := recordSum s + ucast (byte s),
               byte := word_of_int (push_bit 4 (digit_value i)), state := BYTE_START\<rparr>)"
  using digit_value_range [of i] hex_not_special [of i]
  by (simp add: fsa_def colon_override_def)

lemma fsa_BYTE_END_other:
  "state s = BYTE_END \<Longrightarrow> \<not> isalnum i \<Longrightarrow>
   fsa s i =
     (if check_crc (recordSum s + ucast (byte s))
      then (None, colon_override
              (s\<lparr>recordSum := recordSum s + ucast (byte s), state := COMMENT\<rparr>) i)
      else (Some (LogError (log_error ''Wrong CRC.'' (line s) (col s)
                    (sint (ucast (recordSum s + ucast (byte s)) :: c_int)))),
            s\<lparr>recordSum := recordSum s + ucast (byte s)\<rparr>))"
  using hex_not_special [of i] by (auto simp: fsa_def Let_def)

subsection \<open>Record bodies\<close>

lemma second_digit:
  assumes "state s = BYTE_START"
    and "byte s = word_of_int (push_bit 4 (digit_value (of_char (fst p))))"
    and "hex_pair p"
  shows "loop s (snd p # rest) =
     loop (s\<lparr>col := col s + 1, byte := word_of_int (pair_value p), state := BYTE_END\<rparr>) rest"
proof -
  have h: "is_hex_char (of_char (fst p))" and l: "is_hex_char (of_char (snd p))"
    using assms(3) by (simp_all add: hex_pair_def)
  have b: "(word_of_int (uint (byte s) OR digit_value (of_char (snd p))) :: uint8_t) =
      word_of_int (pair_value p)"
    unfolding assms(2) pair_value_def
    using digit_value_range [OF h] digit_value_range [OF l]
    by (intro byte_of_nibbles) simp_all
  have "loop s (snd p # rest) =
      loop (update_context (s\<lparr>byte := word_of_int (pair_value p), state := BYTE_END\<rparr>)
        (of_char (snd p))) rest"
    by (simp add: Let_def fsa_BYTE_START_hex [OF assms(1) l] b)
  moreover have
    "update_context (s\<lparr>byte := word_of_int (pair_value p), state := BYTE_END\<rparr>)
        (of_char (snd p)) =
      s\<lparr>col := col s + 1, byte := word_of_int (pair_value p), state := BYTE_END\<rparr>"
    using hex_not_special [OF l] by (cases s) (simp add: update_context_def)
  ultimately show ?thesis
    by (simp only:)
qed

lemma pair_NEW_RECORD:
  assumes "state s = NEW_RECORD" and "hex_pair p"
  shows "loop s (fst p # snd p # rest) =
     loop (s\<lparr>col := col s + 2, recordSum := 0, byte := word_of_int (pair_value p),
             state := BYTE_END\<rparr>) rest"
proof -
  have h: "is_hex_char (of_char (fst p))"
    using assms(2) by (simp add: hex_pair_def)
  let ?s1 = "update_context
     (s\<lparr>recordSum := 0, byte := word_of_int (push_bit 4 (digit_value (of_char (fst p)))),
        state := BYTE_START\<rparr>) (of_char (fst p))"
  let ?s2 = "?s1\<lparr>col := col ?s1 + 1, byte := word_of_int (pair_value p), state := BYTE_END\<rparr>"
  have "loop s (fst p # snd p # rest) = loop ?s1 (snd p # rest)"
    by (simp add: Let_def fsa_NEW_RECORD_hex [OF assms(1) h])
  also have "\<dots> = loop ?s2 rest"
    using hex_not_special [OF h]
    by (intro second_digit) (simp_all add: update_context_def assms(2))
  finally have "loop s (fst p # snd p # rest) = loop ?s2 rest" .
  moreover have "?s2 = s\<lparr>col := col s + 2, recordSum := 0,
      byte := word_of_int (pair_value p), state := BYTE_END\<rparr>"
    using hex_not_special [OF h] by (cases s) (simp add: update_context_def)
  ultimately show ?thesis
    by (simp only:)
qed

lemma pair_BYTE_END:
  assumes "state s = BYTE_END" and "hex_pair p"
  shows "loop s (fst p # snd p # rest) =
     loop (s\<lparr>col := col s + 2, recordSum := recordSum s + ucast (byte s),
             byte := word_of_int (pair_value p), state := BYTE_END\<rparr>) rest"
proof -
  have h: "is_hex_char (of_char (fst p))"
    using assms(2) by (simp add: hex_pair_def)
  let ?s1 = "update_context
     (s\<lparr>recordSum := recordSum s + ucast (byte s),
        byte := word_of_int (push_bit 4 (digit_value (of_char (fst p)))),
        state := BYTE_START\<rparr>) (of_char (fst p))"
  let ?s2 = "?s1\<lparr>col := col ?s1 + 1, byte := word_of_int (pair_value p), state := BYTE_END\<rparr>"
  have "loop s (fst p # snd p # rest) = loop ?s1 (snd p # rest)"
    by (simp add: Let_def fsa_BYTE_END_hex [OF assms(1) h])
  also have "\<dots> = loop ?s2 rest"
    using hex_not_special [OF h]
    by (intro second_digit) (simp_all add: update_context_def assms(2))
  finally have "loop s (fst p # snd p # rest) = loop ?s2 rest" .
  moreover have "?s2 = s\<lparr>col := col s + 2, recordSum := recordSum s + ucast (byte s),
      byte := word_of_int (pair_value p), state := BYTE_END\<rparr>"
    using hex_not_special [OF h] by (cases s) (simp add: update_context_def)
  ultimately show ?thesis
    by (simp only:)
qed

text \<open>
  In state \<open>BYTE_END\<close> the last byte is still pending in \<open>byte\<close>: the sum of the record so
  far is \<open>recordSum + byte\<close>. A run of digit pairs adds their values to it.
\<close>

lemma body_BYTE_END:
  "state s = BYTE_END \<Longrightarrow> list_all hex_pair ps \<Longrightarrow>
   \<exists>s'. (\<forall>rest. loop s (record_body ps @ rest) = loop s' rest) \<and> state s' = BYTE_END \<and>
        recordSum s' + ucast (byte s') =
          recordSum s + ucast (byte s) + word_of_int (record_sum ps) \<and>
        line s' = line s \<and> col s' = col s + of_nat (2 * length ps) \<and> cnt s' = cnt s"
proof (induction ps arbitrary: s)
  case Nil
  then show ?case by (auto simp: record_sum_def)
next
  case (Cons p ps)
  let ?s1 = "s\<lparr>col := col s + 2, recordSum := recordSum s + ucast (byte s),
             byte := word_of_int (pair_value p), state := BYTE_END\<rparr>"
  from Cons.prems have hp: "hex_pair p" and hps: "list_all hex_pair ps"
    by simp_all
  have st: "state ?s1 = BYTE_END"
    by simp
  from Cons.IH [OF st hps] obtain s' where
    s': "\<forall>rest. loop ?s1 (record_body ps @ rest) = loop s' rest" "state s' = BYTE_END"
      "recordSum s' + ucast (byte s') =
         recordSum ?s1 + ucast (byte ?s1) + word_of_int (record_sum ps)"
      "line s' = line ?s1" "col s' = col ?s1 + of_nat (2 * length ps)" "cnt s' = cnt ?s1"
    by blast
  have u: "(ucast (word_of_int (pair_value p) :: uint8_t) :: uint64_t) =
      word_of_int (pair_value p)"
    using pair_value_range [OF hp] by (intro ucast_byte_value) simp_all
  have "\<forall>rest. loop s (record_body (p # ps) @ rest) = loop s' rest"
    using s'(1) pair_BYTE_END [OF Cons.prems(1) hp] by (simp del: loop.simps)
  moreover have "recordSum s' + ucast (byte s') =
      recordSum s + ucast (byte s) + word_of_int (record_sum (p # ps))"
    using s'(3) by (simp add: u record_sum_def)
  moreover have "col s' = col s + of_nat (2 * length (p # ps))"
    using s'(5) by simp
  ultimately show ?case
    using s'(2,4,6) by auto
qed

lemma body_NEW_RECORD:
  assumes "state s = NEW_RECORD" and "ps \<noteq> []" and "list_all hex_pair ps"
  shows "\<exists>s'. (\<forall>rest. loop s (record_body ps @ rest) = loop s' rest) \<and>
        state s' = BYTE_END \<and>
        recordSum s' + ucast (byte s') = word_of_int (record_sum ps) \<and>
        line s' = line s \<and> col s' = col s + of_nat (2 * length ps) \<and> cnt s' = cnt s"
proof -
  from assms(2) obtain p qs where ps: "ps = p # qs"
    by (cases ps) auto
  let ?s1 = "s\<lparr>col := col s + 2, recordSum := 0, byte := word_of_int (pair_value p),
      state := BYTE_END\<rparr>"
  from assms(3) ps have hp: "hex_pair p" and hqs: "list_all hex_pair qs"
    by simp_all
  have st: "state ?s1 = BYTE_END"
    by simp
  from body_BYTE_END [OF st hqs] obtain s' where
    s': "\<forall>rest. loop ?s1 (record_body qs @ rest) = loop s' rest" "state s' = BYTE_END"
      "recordSum s' + ucast (byte s') =
         recordSum ?s1 + ucast (byte ?s1) + word_of_int (record_sum qs)"
      "line s' = line ?s1" "col s' = col ?s1 + of_nat (2 * length qs)" "cnt s' = cnt ?s1"
    by blast
  have u: "(ucast (word_of_int (pair_value p) :: uint8_t) :: uint64_t) =
      word_of_int (pair_value p)"
    using pair_value_range [OF hp] by (intro ucast_byte_value) simp_all
  have "\<forall>rest. loop s (record_body ps @ rest) = loop s' rest"
    using s'(1) pair_NEW_RECORD [OF assms(1) hp] by (simp add: ps del: loop.simps)
  moreover have "recordSum s' + ucast (byte s') = word_of_int (record_sum ps)"
    using s'(3) by (simp add: u record_sum_def ps)
  moreover have "col s' = col s + of_nat (2 * length ps)"
    using s'(5) by (simp add: ps)
  ultimately show ?thesis
    using s'(2,4,6) by auto
qed

subsection \<open>Runs\<close>

lemma fsa_colon_state:
  assumes "fsa s 58 = (None, s')"
  shows "state s' = NEW_RECORD"
proof -
  have "\<not> is_hex_char 58" by (simp add: is_hex_char_iff)
  then show ?thesis
    using assms
    by (cases "state s")
      (auto simp: fsa_def Let_def colon_override_def split: if_splits)
qed

lemma update_context_fields:
  "state (update_context s i) = state s \<and> cnt (update_context s i) = cnt s \<and>
   recordSum (update_context s i) = recordSum s \<and> byte (update_context s i) = byte s"
  by (simp add: update_context_def Let_def)

lemma after_colon:
  assumes "loop s0 (pre @ '':'') = (None, s)"
  shows "state s = NEW_RECORD"
proof -
  from assms obtain s1 where "loop s0 pre = (None, s1)" and l: "loop s1 '':'' = (None, s)"
    by (auto simp: loop_append split: prod.splits option.splits)
  from l obtain s2 where f: "fsa s1 58 = (None, s2)" and s: "s = update_context s2 58"
    by (auto simp: Let_def split: prod.splits option.splits)
  show ?thesis
    using fsa_colon_state [OF f] by (simp add: s update_context_fields)
qed

lemma loop_Some_split:
  "loop s bs = (Some v, s') \<Longrightarrow>
     \<exists>pre t rest s1. bs = pre @ t # rest \<and> loop s pre = (None, s1) \<and>
       fsa s1 (of_char t) = (Some v, s')"
proof (induction bs arbitrary: s)
  case Nil
  then show ?case by simp
next
  case (Cons c cs)
  show ?case
  proof (cases "fsa s (of_char c)")
    case (Pair r s1)
    show ?thesis
    proof (cases r)
      case None
      with Pair Cons.prems have "loop (update_context s1 (of_char c)) cs = (Some v, s')"
        by (simp add: Let_def)
      from Cons.IH [OF this] obtain pre t rest s2 where
        "cs = pre @ t # rest" "loop (update_context s1 (of_char c)) pre = (None, s2)"
        "fsa s2 (of_char t) = (Some v, s')"
        by blast
      then have "c # cs = (c # pre) @ t # rest \<and> loop s (c # pre) = (None, s2) \<and>
          fsa s2 (of_char t) = (Some v, s')"
        using Pair None by (simp add: Let_def)
      then show ?thesis by blast
    next
      case (Some w)
      with Pair Cons.prems have "fsa s (of_char c) = (Some v, s')"
        by (simp add: Let_def)
      then have "c # cs = [] @ c # cs \<and> loop s [] = (None, s) \<and>
          fsa s (of_char c) = (Some v, s')"
        by simp
      then show ?thesis by blast
    qed
  qed
qed

lemma fsa_Wrong_CRC:
  assumes "fsa s i = (Some (LogError d), s')" and "msg d = ''Wrong CRC.''"
  shows "state s = BYTE_END \<and> \<not> isalnum i \<and> at_line d = line s \<and> at_col d = col s"
  using assms
  by (cases "state s")
    (auto simp: fsa_def Let_def log_error_def split: if_splits option.splits)

lemma check_file_LogError:
  assumes "check_file bs = LogError d"
  shows "\<exists>s'. loop init bs = (Some (LogError d), s')"
  using assms
  by (auto simp: check_file_def split: prod.splits option.splits if_splits)

lemma fsa_verdict_kind:
  assumes "fsa s i = (Some v, s')"
  shows "\<exists>d. v = LogError d"
proof -
  have "v \<noteq> Aborted"
    using fsa_not_Aborted [of s i] assms by auto
  then show ?thesis
    using assms
    by (cases "state s") (auto simp: fsa_def Let_def split: if_splits option.splits)
qed

lemma loop_verdict_kind:
  assumes "loop s bs = (Some v, s')"
  shows "\<exists>d. v = LogError d"
proof -
  from loop_Some_split [OF assms] obtain s1 t where "fsa s1 (of_char t) = (Some v, s')"
    by blast
  then show ?thesis by (rule fsa_verdict_kind)
qed

lemma loop_comment:
  "state s = COMMENT \<Longrightarrow> CHR '':'' \<notin> set bs \<Longrightarrow>
     \<exists>s'. loop s bs = (None, s') \<and> state s' = COMMENT \<and> cnt s' = cnt s"
proof (induction bs arbitrary: s)
  case Nil
  then show ?case by simp
next
  case (Cons c cs)
  from Cons.prems have c: "(of_char c :: int) \<noteq> 58" and cs: "CHR '':'' \<notin> set cs"
    by (auto simp: of_char_colon)
  have f: "fsa s (of_char c) = (None, s)"
    using Cons.prems(1) c by (simp add: fsa_def)
  have "state (update_context s (of_char c)) = COMMENT"
    using Cons.prems(1) by (simp add: update_context_fields)
  from Cons.IH [OF this cs] show ?case
    by (simp add: f Let_def update_context_fields)
qed

lemma fsa_BYTE_END_colon:
  assumes "state s = BYTE_END"
  shows "fsa s 58 =
     (if check_crc (recordSum s + ucast (byte s))
      then (None, s\<lparr>recordSum := recordSum s + ucast (byte s), state := NEW_RECORD\<rparr>)
      else (Some (LogError (log_error ''Wrong CRC.'' (line s) (col s)
                    (sint (ucast (recordSum s + ucast (byte s)) :: c_int)))),
            s\<lparr>recordSum := recordSum s + ucast (byte s)\<rparr>))"
proof -
  have "\<not> isalnum 58"
    by (simp add: isalnum_def isalpha_def isupper_def islower_def isdigit_def)
  from fsa_BYTE_END_other [OF assms this] show ?thesis
    by (simp add: colon_override_def)
qed

lemma loop_None_cases:
  assumes "fsa s (of_char c) = (None, s')"
  shows "loop s (c # cs) = loop (update_context s' (of_char c)) cs"
  using assms by (simp add: Let_def)

lemma loop_replicate_comment:
  "state s = COMMENT \<Longrightarrow> c \<noteq> CHR '':'' \<Longrightarrow> c \<noteq> CHR 0x0A \<Longrightarrow>
     loop s (replicate n c @ rest) = loop (s\<lparr>col := col s + of_nat n\<rparr>) rest"
proof (induction n arbitrary: s)
  case 0
  then show ?case by simp
next
  case (Suc n)
  have f: "fsa s (of_char c) = (None, s)"
    using Suc.prems by (simp add: fsa_def of_char_colon)
  have u: "update_context s (of_char c) = s\<lparr>col := col s + 1\<rparr>"
    using Suc.prems by (simp add: update_context_def of_char_newline)
  have "loop s (replicate (Suc n) c @ rest) = loop (s\<lparr>col := col s + 1\<rparr>) (replicate n c @ rest)"
    by (simp add: f u Let_def)
  also have "\<dots> = loop (s\<lparr>col := col s + 1\<rparr>\<lparr>col := col (s\<lparr>col := col s + 1\<rparr>) + of_nat n\<rparr>) rest"
    using Suc.prems by (intro Suc.IH) simp_all
  also have "s\<lparr>col := col s + 1\<rparr>\<lparr>col := col (s\<lparr>col := col s + 1\<rparr>) + of_nat n\<rparr> = s\<lparr>col := col s + of_nat (Suc n)\<rparr>"
    by (cases s) (simp add: ac_simps)
  finally show ?case .
qed

lemma loop_replicate_newline:
  "state s = COMMENT \<Longrightarrow>
     loop s (replicate (Suc n) (CHR 0x0A) @ rest) =
       loop (s\<lparr>line := line s + of_nat (Suc n), col := 1\<rparr>) rest"
proof (induction n arbitrary: s)
  case 0
  have f: "fsa s (of_char (CHR 0x0A)) = (None, s)"
    using 0 by (simp add: fsa_def)
  have u: "update_context s (of_char (CHR 0x0A)) = s\<lparr>line := line s + 1, col := 1\<rparr>"
    by (cases s) (simp add: update_context_def)
  show ?case
    using f u by (simp add: Let_def)
next
  case (Suc n)
  let ?s1 = "s\<lparr>line := line s + 1, col := 1\<rparr>"
  have f: "fsa s (of_char (CHR 0x0A)) = (None, s)"
    using Suc.prems by (simp add: fsa_def)
  have u: "update_context s (of_char (CHR 0x0A)) = ?s1"
    by (cases s) (simp add: update_context_def)
  have "loop s (replicate (Suc (Suc n)) (CHR 0x0A) @ rest) = loop ?s1 (replicate (Suc n) (CHR 0x0A) @ rest)"
    using f u by (simp add: Let_def)
  also have "\<dots> = loop (?s1\<lparr>line := line ?s1 + of_nat (Suc n), col := 1\<rparr>) rest"
    using Suc.prems by (intro Suc.IH) simp
  also have "?s1\<lparr>line := line ?s1 + of_nat (Suc n), col := 1\<rparr> = s\<lparr>line := line s + of_nat (Suc (Suc n)), col := 1\<rparr>"
    by (cases s) (simp add: ac_simps)
  finally show ?case .
qed

subsection \<open>Counters that have not overflowed\<close>

lemma c_int_of_nat_nonzero:
  assumes "0 < n" and "n < INT_MAX"
  shows "(of_nat n :: c_int) \<noteq> 0"
proof
  assume "(of_nat n :: c_int) = 0"
  then have "2 ^ 32 dvd n"
    by (simp add: word_of_nat_eq_0_iff)
  then have "2 ^ 32 \<le> n"
    using assms(1) by (rule dvd_imp_le)
  then show False
    using assms(2) by (simp add: INT_MAX_def)
qed

lemma size_t_of_nat_nonzero:
  assumes "0 < n" and "n < INT_MAX"
  shows "(of_nat n :: size_t) \<noteq> 0"
proof
  assume "(of_nat n :: size_t) = 0"
  then have "2 ^ 64 dvd n"
    by (simp add: word_of_nat_eq_0_iff)
  then have "2 ^ 64 \<le> n"
    using assms(1) by (rule dvd_imp_le)
  then show False
    using assms(2) by (simp add: INT_MAX_def)
qed

lemma position_moved:
  assumes "loop init bs = (None, s)" and "bs \<noteq> []" and "length bs < INT_MAX"
  shows "\<not> (line s = 1 \<and> col s = 1)"
proof (cases "CHR 0x0A \<in> set bs")
  case True
  then have "0 < count_list bs (CHR 0x0A)"
    using count_list_0_iff [of bs "CHR 0x0A"] by blast
  moreover have "count_list bs (CHR 0x0A) < INT_MAX"
    using count_le_length [of bs "CHR 0x0A"] assms(3) by simp
  ultimately have "(of_nat (count_list bs (CHR 0x0A)) :: c_int) \<noteq> 0"
    by (rule c_int_of_nat_nonzero)
  then have "line s \<noteq> 1"
    using loop_position [OF assms(1)] by (simp add: init_def)
  then show ?thesis by simp
next
  case False
  have "(of_nat (length bs) :: c_int) \<noteq> 0"
    using assms(2,3) by (intro c_int_of_nat_nonzero) simp_all
  then have "col s \<noteq> 1"
    using loop_position [OF assms(1)] False by (simp add: init_def)
  then show ?thesis by simp
qed

lemma fsa_cnt:
  assumes "fsa s i = (None, s')"
  shows "(cnt s' = cnt s \<and> (state s = COMMENT \<longrightarrow> state s' = COMMENT)) \<or>
    (cnt s' = cnt s + 1 \<and> i = 58)"
  using assms
  by (cases "state s")
    (auto simp: fsa_def Let_def colon_override_def split: if_splits option.splits)

lemma loop_cnt:
  "loop s0 bs = (None, s) \<Longrightarrow>
     \<exists>n\<le>length bs. cnt s = cnt s0 + of_nat n \<and>
       (state s0 = COMMENT \<and> n = 0 \<longrightarrow> state s = COMMENT)"
proof (induction bs arbitrary: s0)
  case Nil
  then show ?case by simp
next
  case (Cons c cs)
  from Cons.prems obtain s1 where
    f: "fsa s0 (of_char c) = (None, s1)" and
    l: "loop (update_context s1 (of_char c)) cs = (None, s)"
    by (auto simp: Let_def split: prod.splits option.splits)
  from Cons.IH [OF l] obtain n where
    n: "n \<le> length cs" "cnt s = cnt s1 + of_nat n"
      "state s1 = COMMENT \<and> n = 0 \<longrightarrow> state s = COMMENT"
    by (auto simp: update_context_fields)
  from fsa_cnt [OF f] show ?case
  proof
    assume "cnt s1 = cnt s0 \<and> (state s0 = COMMENT \<longrightarrow> state s1 = COMMENT)"
    with n have "n \<le> length (c # cs) \<and> cnt s = cnt s0 + of_nat n \<and>
       (state s0 = COMMENT \<and> n = 0 \<longrightarrow> state s = COMMENT)"
      by simp
    then show ?thesis by blast
  next
    assume "cnt s1 = cnt s0 + 1 \<and> of_char c = (58 :: int)"
    with n have "Suc n \<le> length (c # cs) \<and> cnt s = cnt s0 + of_nat (Suc n) \<and>
       (state s0 = COMMENT \<and> Suc n = 0 \<longrightarrow> state s = COMMENT)"
      by simp
    then show ?thesis by blast
  qed
qed

lemma cnt_nonzero:
  assumes "loop init bs = (None, s)" and "state s \<noteq> COMMENT" and "length bs < INT_MAX"
  shows "cnt s \<noteq> 0"
proof -
  from loop_cnt [OF assms(1)] obtain n where
    n: "n \<le> length bs" "cnt s = of_nat n" "n = 0 \<longrightarrow> state s = COMMENT"
    by (auto simp: init_def)
  with assms(2) have "0 < n" by auto
  moreover have "n < INT_MAX" using n(1) assms(3) by simp
  ultimately show ?thesis
    unfolding n(2) by (rule size_t_of_nat_nonzero)
qed

lemma check_file_Ok:
  assumes "loop init bs = (None, s)" and "cnt s \<noteq> 0" and "bs \<noteq> []"
    and "length bs < INT_MAX"
  shows "check_file bs = Ok"
  using position_moved [OF assms(1,3,4)] assms(1,2)
  by (auto simp: check_file_def)

section \<open>The properties\<close>

subsection \<open>Digits\<close>

text \<open>
  Claim C9. For every stream, \<open>hex_to_dec\<close> is applied only to bytes that \<open>is_hex_char\<close> has
  accepted: no step of the automaton and no run of \<open>check_file\<close> ends in the \<open>abort\<close> of
  \<open>hex_to_dec\<close>. On every byte that \<open>is_hex_char\<close> accepts, \<open>hex_to_dec\<close> returns the value
  of the digit: the byte is one of the sixteen digits \<open>0123456789ABCDEF\<close>, and the result
  is its index in this sequence, a number from 0 to 15.
\<close>

theorem hex_to_dec_guarded:
  "fst (fsa s input) \<noteq> Some Aborted \<and> check_file bs \<noteq> Aborted \<and>
   (is_hex_char c \<longrightarrow>
      (\<exists>i<16. c = of_char (hex_digits ! i) \<and> hex_to_dec c = Some (int i)))"
  using fsa_not_Aborted [of s input] loop_not_Aborted [of init bs] hex_to_dec_value [of c]
  by (auto simp: check_file_def split: prod.splits option.splits)

theorem hex_to_dec_guarded_witness:
  "is_hex_char (of_char (CHR ''F'')) \<and>
   (\<exists>i<16. (of_char (CHR ''F'') :: int) = of_char (hex_digits ! i) \<and>
      hex_to_dec (of_char (CHR ''F'')) = Some (int i)) \<and>
   map (\<lambda>d. hex_to_dec (of_char d)) hex_digits =
     map Some [0, 1, 2, 3, 4, 5, 6, 7, 8, 9, 10, 11, 12, 13, 14, 15] \<and>
   list_all (\<lambda>d. is_hex_char (of_char d)) hex_digits \<and>
   check_file '':0F'' \<noteq> Aborted \<and>
   fst (fsa (snd (loop init '':0'')) (of_char (CHR ''F''))) \<noteq> Some Aborted"
proof -
  have h: "is_hex_char (of_char (CHR ''F''))"
    by (simp add: is_hex_char_iff)
  have m: "map (\<lambda>d. hex_to_dec (of_char d)) hex_digits =
     map Some [0, 1, 2, 3, 4, 5, 6, 7, 8, 9, 10, 11, 12, 13, 14, 15]"
    by (simp add: hex_digits_def hex_to_dec_def)
  have a: "list_all (\<lambda>d. is_hex_char (of_char d)) hex_digits"
    by (simp add: hex_digits_def is_hex_char_iff)
  from hex_to_dec_guarded [of "snd (loop init '':0'')" "of_char (CHR ''F'')" "'':0F''"
      "of_char (CHR ''F'')"]
  show ?thesis
    using h m a by blast
qed

text \<open>
  \<open>is_hex_char b\<close> holds exactly when \<open>b\<close> is one of \<open>0\<close> to \<open>9\<close> or \<open>A\<close> to \<open>F\<close>. Hence a
  lowercase letter \<open>a\<close> to \<open>f\<close> that arrives in one of the three states that expect a digit
  (every state but \<open>COMMENT\<close>) ends the run with the message
  "Expected uppercase hex digit." and the letter itself. While the letter lies within the
  first \<open>INT_MAX\<close> bytes, the line and the column that are printed are the 1-based line and
  column of that letter.
\<close>

theorem lowercase_rejected:
  assumes "loop init pre = (None, s)" and "state s \<noteq> COMMENT" and "c \<in> set ''abcdef''"
    and "length pre < INT_MAX"
  shows "is_hex_char b =
      ((of_char (CHR ''0'') \<le> b \<and> b \<le> of_char (CHR ''9'')) \<or>
       (of_char (CHR ''A'') \<le> b \<and> b \<le> of_char (CHR ''F''))) \<and>
    (\<exists>d. check_file (pre @ c # rest) = LogError d \<and>
       msg d = ''Expected uppercase hex digit.'' \<and> shown d = c \<and>
       sint (at_line d) = int (line_no pre) \<and> sint (at_col d) = int (col_no pre))"
proof -
  from lowercase_hex [OF assms(3)] have "\<not> is_hex_char (of_char c)" "isalnum (of_char c)"
    by simp_all
  from fsa_lexical [OF assms(2) this] obtain s' where
    "fsa s (of_char c) =
      (Some (LogError
         (log_error ''Expected uppercase hex digit.'' (line s) (col s) (of_char c))), s')"
    by (cases "fsa s (of_char c)") simp
  then have "check_file (pre @ c # rest) =
      LogError (log_error ''Expected uppercase hex digit.'' (line s) (col s) (of_char c))"
    by (simp add: check_file_def loop_append assms(1) Let_def)
  then show ?thesis
    using loop_init_position [OF assms(1)] position_exact [OF assms(4)]
    by (simp add: log_error_def is_hex_char_iff)
qed

theorem lowercase_rejected_witness:
  "loop init ('':00'' @ [CHR 0x0A] @ '':0'') =
     (None, \<lparr>line = 2, col = 3, byte = 0, recordSum = 0, cnt = 2, state = BYTE_START\<rparr>) \<and>
   CHR ''a'' \<in> set ''abcdef'' \<and>
   \<not> is_hex_char (of_char (CHR ''a'')) \<and>
   length ('':00'' @ [CHR 0x0A] @ '':0'') < INT_MAX \<and>
   (\<exists>d. check_file ('':00'' @ [CHR 0x0A] @ '':0'' @ CHR ''a'' # ''00'') = LogError d \<and>
      msg d = ''Expected uppercase hex digit.'' \<and> shown d = CHR ''a'' \<and>
      sint (at_line d) = 2 \<and> sint (at_col d) = 3)"
proof -
  have l: "loop init ('':00'' @ [CHR 0x0A] @ '':0'') =
     (None, \<lparr>line = 2, col = 3, byte = 0, recordSum = 0, cnt = 2, state = BYTE_START\<rparr>)"
    by code_simp
  have n: "line_no ('':00'' @ [CHR 0x0A] @ '':0'') = 2"
    "col_no ('':00'' @ [CHR 0x0A] @ '':0'') = 3"
    by (simp_all add: line_no_def col_no_def)
  have m: "CHR ''a'' \<in> set ''abcdef''"
    by simp
  have st: "state \<lparr>line = 2, col = 3, byte = 0, recordSum = 0, cnt = 2,
      state = BYTE_START\<rparr> \<noteq> COMMENT"
    by simp
  have b: "length ('':00'' @ [CHR 0x0A] @ '':0'') < INT_MAX"
    by (simp add: INT_MAX_def)
  from lowercase_rejected [OF l st m b, of "of_char (CHR ''a'')" "''00''"]
  show ?thesis
    unfolding n using l b by simp
qed

text \<open>
  Claim C8. A lowercase letter \<open>a\<close> to \<open>f\<close> in a state that expects a digit should be
  reported with the 1-based line and column of that letter. \<open>col\<close> is an \<open>int\<close> that is
  incremented once per byte: after 2147483647 blanks and \<open>:\<close> the letter \<open>a\<close> stands in
  column 2147483649, the counter has passed \<open>INT_MAX\<close>, and the diagnostic prints the
  column -2147483647.
\<close>

theorem lowercase_position_after_wraparound:
  "col_no (replicate 2147483647 (CHR '' '') @ '':'') = 2147483649 \<and>
   check_file (replicate 2147483647 (CHR '' '') @ '':a'') =
     LogError \<lparr>msg = ''Expected uppercase hex digit.'', at_line = 1, at_col = 2147483649,
       shown = CHR ''a''\<rparr> \<and>
   sint (2147483649 :: c_int) = - 2147483647"
proof -
  have "CHR 0x0A \<notin> set (replicate 2147483647 (CHR '' '') @ '':'')"
    by simp
  then have c: "col_no (replicate 2147483647 (CHR '' '') @ '':'') = 2147483649"
    by (simp add: col_no_no_newline)
  have "loop init (replicate 2147483647 (CHR '' '') @ '':a'') =
      loop (init\<lparr>col := col init + of_nat 2147483647\<rparr>) '':a''"
    by (rule loop_replicate_comment) (simp_all add: init_def)
  also have "\<dots> =
     (Some (LogError \<lparr>msg = ''Expected uppercase hex digit.'', at_line = 1,
        at_col = 2147483649, shown = CHR ''a''\<rparr>),
      \<lparr>line = 1, col = 2147483649, byte = 0, recordSum = 0, cnt = 1, state = NEW_RECORD\<rparr>)"
    by (simp add: init_def Let_def fsa_def update_context_def is_hex_char_iff log_error_def
        char_of_def)
  finally have "check_file (replicate 2147483647 (CHR '' '') @ '':a'') =
     LogError \<lparr>msg = ''Expected uppercase hex digit.'', at_line = 1, at_col = 2147483649,
       shown = CHR ''a''\<rparr>"
    by (simp add: check_file_def)
  moreover have "sint (2147483649 :: c_int) = - 2147483647"
    by simp
  ultimately show ?thesis
    using c by simp
qed

subsection \<open>Checksums\<close>

text \<open>
  Claim C1. Take a stream that is consumed without any violation up to and including the
  \<open>:\<close> of a record, followed by one or more pairs of uppercase hex digits whose values
  have a sum that is not 0 modulo 256, followed by a byte that is not alphanumeric. Then
  \<open>check_file\<close> ends with the message "Wrong CRC.", and the byte it reports is the sum
  modulo 256 (the low byte of \<open>recordSum\<close>), whatever follows in the stream.
\<close>

theorem bad_checksum:
  assumes "loop init (pre @ '':'') = (None, s)" and "ps \<noteq> []" and "list_all hex_pair ps"
    and "non_alnum t" and "record_sum ps mod 256 \<noteq> 0"
  shows "\<exists>d. check_file (pre @ '':'' @ record_body ps @ t # rest) = LogError d \<and>
     msg d = ''Wrong CRC.'' \<and> (of_char (shown d) :: int) = record_sum ps mod 256"
proof -
  have st: "state s = NEW_RECORD"
    using after_colon [OF assms(1)] .
  from body_NEW_RECORD [OF st assms(2,3)] obtain s' where
    s': "\<forall>rest. loop s (record_body ps @ rest) = loop s' rest" "state s' = BYTE_END"
      "recordSum s' + ucast (byte s') = word_of_int (record_sum ps)"
    by blast
  have t: "\<not> isalnum (of_char t)"
    using assms(4) by (simp add: non_alnum_def)
  let ?d = "log_error ''Wrong CRC.'' (line s') (col s')
      (sint (ucast (word_of_int (record_sum ps) :: uint64_t) :: c_int))"
  have "fst (fsa s' (of_char t)) = Some (LogError ?d)"
    using assms(5) by (simp add: fsa_BYTE_END_other [OF s'(2) t] s'(3) check_crc_of_int)
  then have "fst (loop s' (t # rest)) = Some (LogError ?d)"
    by (auto simp: Let_def split: prod.splits option.splits)
  moreover have "loop init ((pre @ '':'') @ record_body ps @ t # rest) = loop s' (t # rest)"
    using assms(1) s'(1) by (simp only: loop_append [of init "pre @ '':''"] prod.case option.case)
  ultimately have "check_file (pre @ '':'' @ record_body ps @ t # rest) = LogError ?d"
    by (auto simp: check_file_def split: prod.splits option.splits)
  moreover have "msg ?d = ''Wrong CRC.''"
    by (simp add: log_error_def)
  moreover have "(of_char (shown ?d) :: int) = record_sum ps mod 256"
    by (simp only: log_error_def diagnostic.simps shown_of_sum)
  ultimately show ?thesis by blast
qed

theorem bad_checksum_witness:
  "loop init ([] @ '':'') =
     (None, \<lparr>line = 1, col = 2, byte = 0, recordSum = 0, cnt = 1, state = NEW_RECORD\<rparr>) \<and>
   list_all hex_pair [(CHR ''0'', CHR ''0''), (CHR ''0'', CHR ''0''), (CHR ''F'', CHR ''F'')] \<and>
   non_alnum (CHR 0x0A) \<and>
   record_sum [(CHR ''0'', CHR ''0''), (CHR ''0'', CHR ''0''), (CHR ''F'', CHR ''F'')] mod 256 = 255 \<and>
   (\<exists>d. check_file ('':0000FF'' @ [CHR 0x0A]) = LogError d \<and> msg d = ''Wrong CRC.'' \<and>
      (of_char (shown d) :: int) = 255)"
proof -
  let ?ps = "[(CHR ''0'', CHR ''0''), (CHR ''0'', CHR ''0''), (CHR ''F'', CHR ''F'')]"
  have l: "loop init ([] @ '':'') =
     (None, \<lparr>line = 1, col = 2, byte = 0, recordSum = 0, cnt = 1, state = NEW_RECORD\<rparr>)"
    by code_simp
  have n: "?ps \<noteq> []" by simp
  have h: "list_all hex_pair ?ps"
    by (simp add: hex_pair_def is_hex_char_iff)
  have t: "non_alnum (CHR 0x0A)"
    by (simp add: non_alnum_def isalnum_def isalpha_def isupper_def islower_def isdigit_def)
  have r: "record_sum ?ps = 255"
    by (simp add: record_sum_def pair_value_def digit_value_def hex_to_dec_def)
  have m: "record_sum ?ps mod 256 \<noteq> 0"
    by (simp add: r)
  from bad_checksum [OF l n h t m, of "[]"] show ?thesis
    using l h t by (simp add: r)
qed

text \<open>
  Whenever \<open>check_file\<close> ends with "Wrong CRC.", the stream splits into a prefix that is
  consumed without violation and leaves the automaton in \<open>BYTE_END\<close> (a digit pair has
  just been read), and a next byte that is not alphanumeric, on which the step of the
  automaton returns this diagnostic. While the stream has at most \<open>INT_MAX\<close> bytes, the line
  and the column that are printed are the 1-based line and column of that next byte, the
  terminator of the record.
\<close>

theorem wrong_crc_position:
  assumes "check_file bs = LogError d" and "msg d = ''Wrong CRC.''"
    and "length bs \<le> INT_MAX"
  shows "\<exists>pre t rest s. bs = pre @ t # rest \<and> loop init pre = (None, s) \<and>
     state s = BYTE_END \<and> non_alnum t \<and> fst (fsa s (of_char t)) = Some (LogError d) \<and>
     sint (at_line d) = int (line_no pre) \<and> sint (at_col d) = int (col_no pre)"
proof -
  from check_file_LogError [OF assms(1)] obtain s' where
    "loop init bs = (Some (LogError d), s')" ..
  from loop_Some_split [OF this] obtain pre t rest s where
    bs: "bs = pre @ t # rest" and pre: "loop init pre = (None, s)" and
    f: "fsa s (of_char t) = (Some (LogError d), s')"
    by blast
  have "length pre < INT_MAX"
    using assms(3) bs by simp
  from fsa_Wrong_CRC [OF f assms(2)] loop_init_position [OF pre] position_exact [OF this]
  have "state s = BYTE_END \<and> non_alnum t \<and> fst (fsa s (of_char t)) = Some (LogError d) \<and>
     sint (at_line d) = int (line_no pre) \<and> sint (at_col d) = int (col_no pre)"
    using f by (simp add: non_alnum_def)
  with bs pre show ?thesis by blast
qed

theorem wrong_crc_position_witness:
  "check_file ('':0000FF'' @ [CHR 0x0A]) =
     LogError \<lparr>msg = ''Wrong CRC.'', at_line = 1, at_col = 8, shown = CHR 0xFF\<rparr> \<and>
   length ('':0000FF'' @ [CHR 0x0A]) \<le> INT_MAX \<and>
   (\<exists>pre t rest s. '':0000FF'' @ [CHR 0x0A] = pre @ t # rest \<and> loop init pre = (None, s) \<and>
      state s = BYTE_END \<and> non_alnum t \<and> 1 = int (line_no pre) \<and> 8 = int (col_no pre))"
proof -
  have c: "check_file ('':0000FF'' @ [CHR 0x0A]) =
     LogError \<lparr>msg = ''Wrong CRC.'', at_line = 1, at_col = 8, shown = CHR 0xFF\<rparr>"
    by code_simp
  have m: "msg \<lparr>msg = ''Wrong CRC.'', at_line = 1, at_col = 8, shown = CHR 0xFF\<rparr> =
      ''Wrong CRC.''"
    by simp
  have b: "length ('':0000FF'' @ [CHR 0x0A]) \<le> INT_MAX"
    by (simp add: INT_MAX_def)
  from wrong_crc_position [OF c m b] obtain pre t rest s where
    "'':0000FF'' @ [CHR 0x0A] = pre @ t # rest" "loop init pre = (None, s)"
    "state s = BYTE_END" "non_alnum t" "1 = int (line_no pre)" "8 = int (col_no pre)"
    by auto
  then have "\<exists>pre t rest s. '':0000FF'' @ [CHR 0x0A] = pre @ t # rest \<and>
      loop init pre = (None, s) \<and> state s = BYTE_END \<and> non_alnum t \<and>
      1 = int (line_no pre) \<and> 8 = int (col_no pre)"
    by blast
  with c b show ?thesis
    by blast
qed

text \<open>
  Claim C10. The line and the column of a "Wrong CRC." diagnostic should be those of the
  byte that ends the record. \<open>col\<close> is an \<open>int\<close> that is incremented once per byte: after
  2147483647 blanks and \<open>:01\<close> the newline that ends the record stands in column
  2147483651, the counter has passed \<open>INT_MAX\<close>, and the diagnostic prints the column
  -2147483645.
\<close>

theorem wrong_crc_position_after_wraparound:
  "col_no (replicate 2147483647 (CHR '' '') @ '':01'') = 2147483651 \<and>
   check_file (replicate 2147483647 (CHR '' '') @ '':01'' @ [CHR 0x0A]) =
     LogError \<lparr>msg = ''Wrong CRC.'', at_line = 1, at_col = 2147483651, shown = CHR 0x01\<rparr> \<and>
   sint (2147483651 :: c_int) = - 2147483645"
proof -
  have "CHR 0x0A \<notin> set (replicate 2147483647 (CHR '' '') @ '':01'')"
    by simp
  then have c: "col_no (replicate 2147483647 (CHR '' '') @ '':01'') = 2147483651"
    by (simp add: col_no_no_newline)
  have "loop init (replicate 2147483647 (CHR '' '') @ ('':01'' @ [CHR 0x0A])) =
      loop (init\<lparr>col := col init + of_nat 2147483647\<rparr>) ('':01'' @ [CHR 0x0A])"
    by (rule loop_replicate_comment) (simp_all add: init_def)
  also have "\<dots> =
     (Some (LogError \<lparr>msg = ''Wrong CRC.'', at_line = 1, at_col = 2147483651,
        shown = CHR 0x01\<rparr>),
      \<lparr>line = 1, col = 2147483651, byte = 1, recordSum = 1, cnt = 1, state = BYTE_END\<rparr>)"
    by (simp add: init_def Let_def fsa_def update_context_def is_hex_char_iff hex_to_dec_def
        isalnum_def isalpha_def isupper_def islower_def isdigit_def check_crc_def
        log_error_def char_of_def)
  finally have "check_file (replicate 2147483647 (CHR '' '') @ '':01'' @ [CHR 0x0A]) =
     LogError \<lparr>msg = ''Wrong CRC.'', at_line = 1, at_col = 2147483651, shown = CHR 0x01\<rparr>"
    by (simp add: check_file_def)
  moreover have "sint (2147483651 :: c_int) = - 2147483645"
    by simp
  ultimately show ?thesis
    using c by simp
qed

subsection \<open>Steps in state BYTE_END\<close>

text \<open>
  Claim C5, as the code has it. When the automaton is in \<open>BYTE_END\<close> and reads an
  alphanumeric byte that is not an uppercase hex digit, \<open>check_file\<close> returns with the
  message "Expected uppercase hex digit."; at that moment \<open>recordSum\<close> has already been
  incremented by the pending byte, because the addition is the first statement of the
  case, before the byte is classified. (The diagnostic carries the counters \<open>line\<close> and
  \<open>col\<close> as the state before this byte has them.)
\<close>

theorem lexical_error_after_pair:
  assumes "loop init pre = (None, s)" and "state s = BYTE_END"
    and "isalnum (of_char c)" and "\<not> is_hex_char (of_char c)"
  shows "loop init (pre @ c # rest) =
     (Some (LogError
        (log_error ''Expected uppercase hex digit.'' (line s) (col s) (of_char c))),
      s\<lparr>recordSum := recordSum s + ucast (byte s)\<rparr>) \<and>
    check_file (pre @ c # rest) =
      LogError (log_error ''Expected uppercase hex digit.'' (line s) (col s) (of_char c))"
proof -
  have "fsa s (of_char c) =
     (Some (LogError
        (log_error ''Expected uppercase hex digit.'' (line s) (col s) (of_char c))),
      s\<lparr>recordSum := recordSum s + ucast (byte s)\<rparr>)"
    using assms(2,3,4) by (simp add: fsa_def Let_def)
  then have "loop init (pre @ c # rest) =
     (Some (LogError
        (log_error ''Expected uppercase hex digit.'' (line s) (col s) (of_char c))),
      s\<lparr>recordSum := recordSum s + ucast (byte s)\<rparr>)"
    by (simp add: loop_append assms(1) Let_def)
  then show ?thesis
    by (simp add: check_file_def)
qed

theorem lexical_error_after_pair_witness:
  "loop init '':01'' =
     (None, \<lparr>line = 1, col = 4, byte = 1, recordSum = 0, cnt = 1, state = BYTE_END\<rparr>) \<and>
   isalnum (of_char (CHR ''G'')) \<and> \<not> is_hex_char (of_char (CHR ''G'')) \<and>
   loop init ('':01'' @ CHR ''G'' # ''0'') =
     (Some (LogError \<lparr>msg = ''Expected uppercase hex digit.'', at_line = 1, at_col = 4,
        shown = CHR ''G''\<rparr>),
      \<lparr>line = 1, col = 4, byte = 1, recordSum = 1, cnt = 1, state = BYTE_END\<rparr>)"
proof -
  have l: "loop init '':01'' =
     (None, \<lparr>line = 1, col = 4, byte = 1, recordSum = 0, cnt = 1, state = BYTE_END\<rparr>)"
    by code_simp
  have st: "state \<lparr>line = 1, col = 4, byte = 1, recordSum = 0, cnt = 1, state = BYTE_END\<rparr> = BYTE_END"
    by simp
  have a: "isalnum (of_char (CHR ''G''))"
    by (simp add: isalnum_def isalpha_def isupper_def)
  have h: "\<not> is_hex_char (of_char (CHR ''G''))"
    by (simp add: is_hex_char_iff)
  have g: "char_of (71 :: int) = CHR ''G''"
    by code_simp
  from lexical_error_after_pair [OF l st a h, of "''0''"] show ?thesis
    using l a h by (simp add: log_error_def g)
qed

text \<open>
  The statement that the checksum has not yet been incremented at the moment of failure
  does not hold: after \<open>:01\<close> the checksum is 0 and the pending byte is 1, and when the
  next byte \<open>G\<close> makes the function return the checksum is 1.
\<close>

theorem checksum_added_counterexample:
  "loop init '':01'' =
     (None, \<lparr>line = 1, col = 4, byte = 1, recordSum = 0, cnt = 1, state = BYTE_END\<rparr>) \<and>
   loop init '':01G'' =
     (Some (LogError \<lparr>msg = ''Expected uppercase hex digit.'', at_line = 1, at_col = 4,
        shown = CHR ''G''\<rparr>),
      \<lparr>line = 1, col = 4, byte = 1, recordSum = 1, cnt = 1, state = BYTE_END\<rparr>)"
  by code_simp

text \<open>
  Claim C2. Two adjacent records: in \<open>BYTE_END\<close>, a \<open>:\<close> adds the pending byte to the
  checksum, checks its low byte and sets the state to \<open>NEW_RECORD\<close> in one step
  (\<open>fsa_BYTE_END_colon\<close>). The record counter is incremented in the case \<open>COMMENT\<close> only:
  after \<open>:00\<close> it is 1, and after the \<open>:\<close> that opens a second record right behind the
  first it is still 1, whereas the same two records separated by a newline give 2.
\<close>

theorem adjacent_record_counter:
  "loop init '':00'' =
     (None, \<lparr>line = 1, col = 4, byte = 0, recordSum = 0, cnt = 1, state = BYTE_END\<rparr>) \<and>
   loop init '':00:'' =
     (None, \<lparr>line = 1, col = 5, byte = 0, recordSum = 0, cnt = 1, state = NEW_RECORD\<rparr>) \<and>
   loop init ('':00'' @ [CHR 0x0A] @ '':'') =
     (None, \<lparr>line = 2, col = 2, byte = 0, recordSum = 0, cnt = 2, state = NEW_RECORD\<rparr>)"
  by code_simp

subsection \<open>The end of the stream\<close>

text \<open>
  The checks after the loop decide on \<open>line\<close>, \<open>col\<close> and \<open>cnt\<close>. While the stream is
  shorter than \<open>INT_MAX\<close> bytes no counter overflows, and the position is \<open>(1, 1)\<close> for the
  empty stream only. The three results that follow are for such streams: the message
  "empty file." is given for the empty stream exactly; "No record found." is given exactly
  when the stream is not empty and ends with \<open>cnt = 0\<close>, in particular when it has no
  \<open>:\<close>; and a stream that ends inside a record is accepted.
\<close>

theorem empty_file_iff:
  assumes "length bs < INT_MAX"
  shows "(check_file bs = EmptyFile) = (bs = [])"
proof (cases "bs = []")
  case True
  then show ?thesis by (simp add: check_file_def init_def)
next
  case False
  show ?thesis
  proof (cases "loop init bs")
    case (Pair r s)
    show ?thesis
    proof (cases r)
      case None
      with Pair position_moved [OF _ False assms, of s] False show ?thesis
        by (auto simp: check_file_def)
    next
      case (Some v)
      with Pair loop_verdict_kind [of init bs v s] False show ?thesis
        by (auto simp: check_file_def)
    qed
  qed
qed

theorem empty_file_iff_witness:
  "length ''x'' < INT_MAX \<and> check_file ''x'' = NoRecord \<and>
   length '''' < INT_MAX \<and> check_file '''' = EmptyFile"
proof -
  have b: "length ''x'' < INT_MAX" "length '''' < INT_MAX"
    by (simp_all add: INT_MAX_def)
  have c: "check_file ''x'' = NoRecord"
    by code_simp
  from empty_file_iff [OF b(1)] empty_file_iff [OF b(2)] show ?thesis
    using b c by simp
qed

theorem no_record_verdict:
  assumes "length bs < INT_MAX"
  shows "(bs \<noteq> [] \<and> CHR '':'' \<notin> set bs \<longrightarrow> check_file bs = NoRecord) \<and>
    ((check_file bs = NoRecord) =
      (bs \<noteq> [] \<and> fst (loop init bs) = None \<and> cnt (snd (loop init bs)) = 0))"
proof (cases "loop init bs")
  case (Pair r s)
  show ?thesis
  proof (cases r)
    case None
    have 1: "check_file bs = NoRecord" if "bs \<noteq> []" "cnt s = 0"
      using position_moved [OF _ that(1) assms, of s] Pair None that(2)
      by (auto simp: check_file_def)
    have 2: "bs \<noteq> [] \<and> cnt s = 0" if "check_file bs = NoRecord"
      using that Pair None
      by (cases "bs = []") (auto simp: check_file_def init_def split: if_splits)
    have 3: "cnt s = 0" if "CHR '':'' \<notin> set bs"
      using loop_comment [of init bs] that Pair None by (auto simp: init_def)
    from 1 2 3 show ?thesis
      using Pair None by auto
  next
    case (Some v)
    have "check_file bs \<noteq> NoRecord"
      using Pair Some loop_verdict_kind [of init bs v s] by (auto simp: check_file_def)
    moreover have "CHR '':'' \<in> set bs"
      using loop_comment [of init bs] Pair Some by (auto simp: init_def)
    ultimately show ?thesis
      using Pair Some by simp
  qed
qed

theorem no_record_verdict_witness:
  "length ''hello'' < INT_MAX \<and> CHR '':'' \<notin> set ''hello'' \<and>
   check_file ''hello'' = NoRecord \<and>
   loop init ''hello'' =
     (None, \<lparr>line = 1, col = 6, byte = 0, recordSum = 0, cnt = 0, state = COMMENT\<rparr>)"
proof -
  have b: "length ''hello'' < INT_MAX"
    by (simp add: INT_MAX_def)
  have l: "loop init ''hello'' =
     (None, \<lparr>line = 1, col = 6, byte = 0, recordSum = 0, cnt = 0, state = COMMENT\<rparr>)"
    by code_simp
  from no_record_verdict [OF b] show ?thesis
    using b l by simp
qed

theorem incomplete_record_ok:
  assumes "loop init bs = (None, s)" and "state s \<noteq> COMMENT" and "length bs < INT_MAX"
  shows "check_file bs = Ok"
proof -
  have "bs \<noteq> []"
    using assms(1,2) by (auto simp: init_def)
  with cnt_nonzero [OF assms] show ?thesis
    using assms(1,3) by (intro check_file_Ok)
qed

theorem incomplete_record_ok_witness:
  "loop init '':01'' =
     (None, \<lparr>line = 1, col = 4, byte = 1, recordSum = 0, cnt = 1, state = BYTE_END\<rparr>) \<and>
   length '':01'' < INT_MAX \<and> check_file '':01'' = Ok \<and>
   loop init '':0'' =
     (None, \<lparr>line = 1, col = 3, byte = 0, recordSum = 0, cnt = 1, state = BYTE_START\<rparr>) \<and>
   check_file '':0'' = Ok"
proof -
  have l: "loop init '':01'' =
     (None, \<lparr>line = 1, col = 4, byte = 1, recordSum = 0, cnt = 1, state = BYTE_END\<rparr>)"
    by code_simp
  have l2: "loop init '':0'' =
     (None, \<lparr>line = 1, col = 3, byte = 0, recordSum = 0, cnt = 1, state = BYTE_START\<rparr>)"
    by code_simp
  have b: "length '':01'' < INT_MAX" "length '':0'' < INT_MAX"
    by (simp_all add: INT_MAX_def)
  from incomplete_record_ok [OF l _ b(1)] incomplete_record_ok [OF l2 _ b(2)]
  show ?thesis
    using l l2 b by simp
qed

text \<open>
  Claim C6. The message "empty file." should be given for the stream of zero bytes only.
  The code tests \<open>line = 1 \<and> col = 1\<close> instead of counting bytes, and \<open>col\<close> is an \<open>int\<close>:
  after 4294967296 bytes without a newline it is 1 again, and the stream is reported as
  empty. (Below \<open>INT_MAX\<close> bytes the test is exact: \<open>empty_file_iff\<close>.)
\<close>

theorem empty_file_after_wraparound:
  "replicate 4294967296 (CHR ''x'') \<noteq> [] \<and>
   check_file (replicate 4294967296 (CHR ''x'')) = EmptyFile"
proof -
  have "loop init (replicate 4294967296 (CHR ''x'') @ []) =
      loop (init\<lparr>col := col init + of_nat 4294967296\<rparr>) []"
    by (rule loop_replicate_comment) (simp_all add: init_def)
  then show ?thesis
    by (simp add: check_file_def init_def)
qed

text \<open>
  Claim C7. A stream of one byte or more without any \<open>:\<close> should give
  "No record found.". For the same reason as above, 4294967296 newlines bring \<open>line\<close> back
  to 1 with \<open>col = 1\<close>, and the first check after the loop reports an empty file before
  the record counter is looked at. (Below \<open>INT_MAX\<close> bytes: \<open>no_record_verdict\<close>.)
\<close>

theorem no_record_after_wraparound:
  "replicate 4294967296 (CHR 0x0A) \<noteq> [] \<and> CHR '':'' \<notin> set (replicate 4294967296 (CHR 0x0A)) \<and>
   check_file (replicate 4294967296 (CHR 0x0A)) = EmptyFile"
proof -
  have "loop init (replicate (Suc 4294967295) (CHR 0x0A) @ []) =
      loop (init\<lparr>line := line init + of_nat (Suc 4294967295), col := 1\<rparr>) []"
    by (rule loop_replicate_newline) (simp add: init_def)
  moreover have "Suc 4294967295 = 4294967296" by simp
  ultimately have "loop init (replicate 4294967296 (CHR 0x0A)) =
      loop (init\<lparr>line := line init + of_nat 4294967296, col := 1\<rparr>) []"
    by (simp del: replicate_Suc replicate.simps)
  then show ?thesis
    by (simp add: check_file_def init_def)
qed

text \<open>
  Claim C4. A stream that ends inside a record, after one byte or more and one record or
  more, should be accepted without any check of the checksum. For the same reason as above,
  4294967294 blanks followed by \<open>:0\<close> end in state \<open>BYTE_START\<close> with the position
  \<open>(1, 1)\<close>, and the stream is reported as empty. (Below \<open>INT_MAX\<close> bytes:
  \<open>incomplete_record_ok\<close>.)
\<close>

theorem incomplete_record_after_wraparound:
  "loop init (replicate 4294967294 (CHR '' '') @ '':0'') =
     (None, \<lparr>line = 1, col = 1, byte = 0, recordSum = 0, cnt = 1, state = BYTE_START\<rparr>) \<and>
   check_file (replicate 4294967294 (CHR '' '') @ '':0'') = EmptyFile"
proof -
  have "loop init (replicate 4294967294 (CHR '' '') @ '':0'') =
      loop (init\<lparr>col := col init + of_nat 4294967294\<rparr>) '':0''"
    by (rule loop_replicate_comment) (simp_all add: init_def)
  also have "\<dots> = (None, \<lparr>line = 1, col = 1, byte = 0, recordSum = 0, cnt = 1, state = BYTE_START\<rparr>)"
    by (simp add: init_def Let_def fsa_def update_context_def is_hex_char_iff hex_to_dec_def)
  finally show ?thesis
    by (simp add: check_file_def)
qed

text \<open>
  Claim C3, as the code has it. A stream shorter than \<open>INT_MAX\<close> bytes that consists of
  any bytes other than \<open>:\<close>, then \<open>:\<close>, then one or more pairs of uppercase hex digits
  whose values sum to 0 modulo 256, and then either nothing or one byte that is not
  alphanumeric, is accepted.
\<close>

theorem well_formed_record_ok:
  assumes "CHR '':'' \<notin> set pre" and "ps \<noteq> []" and "list_all hex_pair ps"
    and "record_sum ps mod 256 = 0"
    and "length fin \<le> 1" and "list_all non_alnum fin"
    and "length (pre @ '':'' @ record_body ps @ fin) < INT_MAX"
  shows "check_file (pre @ '':'' @ record_body ps @ fin) = Ok"
proof -
  from loop_comment [of init pre] assms(1) obtain s1 where
    s1: "loop init pre = (None, s1)" "state s1 = COMMENT" "cnt s1 = 0"
    by (auto simp: init_def)
  let ?s2 = "update_context (s1\<lparr>cnt := cnt s1 + 1, state := NEW_RECORD\<rparr>) 58"
  have f: "fsa s1 (of_char (CHR '':'')) = (None, s1\<lparr>cnt := cnt s1 + 1, state := NEW_RECORD\<rparr>)"
    using s1(2) by (simp add: fsa_def)
  have s2: "state ?s2 = NEW_RECORD" "cnt ?s2 = 1"
    using s1(3) by (simp_all add: update_context_fields)
  from body_NEW_RECORD [OF s2(1) assms(2,3)] obtain s3 where
    s3: "\<forall>rest. loop ?s2 (record_body ps @ rest) = loop s3 rest" "state s3 = BYTE_END"
      "recordSum s3 + ucast (byte s3) = word_of_int (record_sum ps)" "cnt s3 = 1"
    using s2(2) by auto
  have run: "loop init (pre @ '':'' @ record_body ps @ fin) = loop s3 fin"
    using s1(1) s3(1) loop_None_cases [OF f]
    by (simp add: loop_append del: loop.simps)
  have "\<exists>s4. loop s3 fin = (None, s4) \<and> cnt s4 = 1"
  proof (cases fin)
    case Nil
    then show ?thesis using s3(4) by simp
  next
    case (Cons t ts)
    with assms(5,6) have ts: "ts = []" and t: "\<not> isalnum (of_char t)"
      by (simp_all add: non_alnum_def)
    have "check_crc (recordSum s3 + ucast (byte s3))"
      using assms(4) by (simp add: s3(3) check_crc_of_int)
    then show ?thesis
      using fsa_BYTE_END_other [OF s3(2) t] s3(4)
      by (simp add: Cons ts Let_def update_context_fields colon_override_def)
  qed
  then obtain s4 where s4: "loop s3 fin = (None, s4)" "cnt s4 = 1"
    by blast
  have full: "loop init (pre @ '':'' @ record_body ps @ fin) = (None, s4)"
    using run s4(1) by simp
  have c: "cnt s4 \<noteq> 0"
    by (simp add: s4(2))
  have ne: "pre @ '':'' @ record_body ps @ fin \<noteq> []"
    by simp
  show ?thesis
    by (rule check_file_Ok [OF full c ne assms(7)])
qed

theorem well_formed_record_ok_witness:
  "CHR '':'' \<notin> set ''hello'' \<and>
   list_all hex_pair (replicate 4 (CHR ''0'', CHR ''0'')) \<and>
   record_sum (replicate 4 (CHR ''0'', CHR ''0'')) mod 256 = 0 \<and>
   list_all non_alnum [CHR 0x0A] \<and>
   check_file (''hello:00000000'' @ [CHR 0x0A]) = Ok"
proof -
  let ?ps = "[(CHR ''0'', CHR ''0''), (CHR ''0'', CHR ''0''), (CHR ''0'', CHR ''0''), (CHR ''0'', CHR ''0'')]"
  have e: "replicate 4 (CHR ''0'', CHR ''0'') = ?ps"
    by (simp add: numeral_eq_Suc)
  have p: "CHR '':'' \<notin> set ''hello''" by simp
  have n: "?ps \<noteq> []" by simp
  have h: "list_all hex_pair ?ps"
    by (simp add: hex_pair_def is_hex_char_iff)
  have r: "record_sum ?ps mod 256 = 0"
    by (simp add: record_sum_def pair_value_def digit_value_def hex_to_dec_def)
  have t: "length [CHR 0x0A] \<le> 1" "list_all non_alnum [CHR 0x0A]"
    by (simp_all add: non_alnum_def isalnum_def isalpha_def isupper_def islower_def isdigit_def)
  have b: "length (''hello'' @ '':'' @ record_body ?ps @ [CHR 0x0A]) < INT_MAX"
    by (simp add: INT_MAX_def)
  from well_formed_record_ok [OF p n h r t b] show ?thesis
    using h r t(2) by (simp add: e)
qed

text \<open>
  A terminator that is merely not a hex digit is not enough: the letter \<open>G\<close> after the
  record \<open>:00\<close> is alphanumeric, and the case \<open>BYTE_END\<close> answers it with
  "Expected uppercase hex digit.".
\<close>

theorem alnum_terminator_counterexample:
  "list_all hex_pair [(CHR ''0'', CHR ''0'')] \<and>
   record_sum [(CHR ''0'', CHR ''0'')] mod 256 = 0 \<and>
   \<not> is_hex_char (of_char (CHR ''G'')) \<and>
   check_file ([] @ '':'' @ record_body [(CHR ''0'', CHR ''0'')] @ ''G'') =
     LogError \<lparr>msg = ''Expected uppercase hex digit.'', at_line = 1, at_col = 4,
       shown = CHR ''G''\<rparr>"
proof -
  have "check_file '':00G'' =
     LogError \<lparr>msg = ''Expected uppercase hex digit.'', at_line = 1, at_col = 4,
       shown = CHR ''G''\<rparr>"
    by code_simp
  then show ?thesis
    by (simp add: hex_pair_def is_hex_char_iff record_sum_def pair_value_def digit_value_def
        hex_to_dec_def)
qed

end
